theory Spec2Isabelle
  imports Main "HOL-Library.Sublist" "HOL-Library.Multiset"
begin

section \<open>Python strings\<close>

text \<open>
  A Python \<open>str\<close> is a sequence of Unicode code points. The marker phrases of
  \<open>parser.py\<close> are Cyrillic, so a string is modelled as the list of its code points;
  \<open>ascii\<close> embeds an ASCII literal.
\<close>

type_synonym ustring = "nat list"

definition ascii :: "string \<Rightarrow> ustring" where
  "ascii s = map of_char s"

text \<open>\<open>w in t\<close> for strings: \<open>w\<close> occurs in \<open>t\<close> as a contiguous substring.\<close>

fun contains :: "ustring \<Rightarrow> ustring \<Rightarrow> bool" where
  "contains [] w = (w = [])"
| "contains (c # t) w = (prefix w (c # t) \<or> contains t w)"

text \<open>
  \<open>t.rfind(w)\<close>: the highest index at which \<open>w\<close> starts in \<open>t\<close>, or \<open>-1\<close> when
  \<open>w\<close> does not occur.
\<close>

fun rfind :: "ustring \<Rightarrow> ustring \<Rightarrow> int" where
  "rfind [] w = (if w = [] then 0 else -1)"
| "rfind (c # t) w =
     (let r = rfind t w in
      if r \<noteq> -1 then r + 1 else if prefix w (c # t) then 0 else -1)"

text \<open>
  \<open>str.isspace\<close> of one code point; \<open>str.strip\<close>, \<open>str.rstrip\<close> and the regular
  expression class \<open>\s\<close> on \<open>str\<close> patterns all use this set.
\<close>

definition isspace :: "nat \<Rightarrow> bool" where
  "isspace c \<longleftrightarrow>
     (9 \<le> c \<and> c \<le> 13) \<or> (28 \<le> c \<and> c \<le> 32) \<or> c = 133 \<or> c = 160 \<or> c = 5760 \<or>
     (8192 \<le> c \<and> c \<le> 8202) \<or> c = 8232 \<or> c = 8233 \<or> c = 8239 \<or> c = 8287 \<or> c = 12288"

definition rstrip :: "ustring \<Rightarrow> ustring" where
  "rstrip s = rev (dropWhile isspace (rev s))"

definition strip :: "ustring \<Rightarrow> ustring" where
  "strip s = rstrip (dropWhile isspace s)"

text \<open>
  \<open>str.lower\<close> belongs to the Python library, not to the repository: the functions
  that call it take it as the parameter \<open>lower\<close>. \<open>py_lower\<close> is the case mapping on
  the ASCII letters and on the Cyrillic block U+0400..U+045F (identity on every other
  code point); the concrete evaluations below use it on strings over these ranges only,
  where it agrees with \<open>str.lower\<close>.
\<close>

definition lower_cp :: "nat \<Rightarrow> nat" where
  "lower_cp c =
     (if 65 \<le> c \<and> c \<le> 90 then c + 32
      else if 1040 \<le> c \<and> c \<le> 1071 then c + 32
      else if 1024 \<le> c \<and> c \<le> 1039 then c + 80
      else c)"

definition py_lower :: "ustring \<Rightarrow> ustring" where
  "py_lower s = map lower_cp s"

section \<open>Text sanitizer: \<open>pretiffy_data\<close>\<close>

text \<open>
  \<open>removing_pattern = re.compile(r'\[SVG Image\]\(data:image/svg\+xml;base64,[^)]+\)')\<close>.
  A match at the start of \<open>s\<close> is the literal opening sequence, the longest run of
  characters other than \<open>)\<close> (at least one, greedy; a shorter run is followed by a
  character that is not \<open>)\<close>, so backtracking finds nothing more), and a closing \<open>)\<close>.
  \<open>match_svg s\<close> is the text after the match.
\<close>

definition SVG_OPEN :: ustring where
  "SVG_OPEN = ascii ''[SVG Image](data:image/svg+xml;base64,''"

definition RPAREN :: nat where
  "RPAREN = 41"

definition match_svg :: "ustring \<Rightarrow> ustring option" where
  "match_svg s =
     (if prefix SVG_OPEN s then
        (let r = drop (length SVG_OPEN) s;
             payload = takeWhile (\<lambda>c. c \<noteq> RPAREN) r;
             rest = dropWhile (\<lambda>c. c \<noteq> RPAREN) r
         in if payload \<noteq> [] \<and> rest \<noteq> [] then Some (tl rest) else None)
      else None)"

text \<open>
  \<open>re.sub(removing_pattern, "", markdown_text)\<close>: scan from the left; where the
  pattern matches, drop the match and go on after it, otherwise keep the character.
\<close>

function re_sub_svg :: "ustring \<Rightarrow> ustring" where
  "re_sub_svg s =
     (case match_svg s of
        Some rest \<Rightarrow> re_sub_svg rest
      | None \<Rightarrow> (case s of [] \<Rightarrow> [] | c # cs \<Rightarrow> c # re_sub_svg cs))"
  by pat_completeness auto
termination
proof (relation "measure length")
  show "wf (measure length)" by simp
next
  fix s rest :: ustring
  assume m: "match_svg s = Some rest"
  define r where "r = drop (length SVG_OPEN) s"
  from m have d: "dropWhile (\<lambda>c. c \<noteq> RPAREN) r \<noteq> []"
    and e: "rest = tl (dropWhile (\<lambda>c. c \<noteq> RPAREN) r)"
    by (auto simp: match_svg_def r_def Let_def split: if_splits)
  have "length (dropWhile (\<lambda>c. c \<noteq> RPAREN) r) \<le> length r"
    by (rule length_dropWhile_le)
  moreover have "length r \<le> length s"
    by (simp add: r_def)
  ultimately have "length rest < length s"
    using d e by (cases "dropWhile (\<lambda>c. c \<noteq> RPAREN) r") auto
  then show "(rest, s) \<in> measure length" by simp
next
  fix s cs :: ustring and c :: nat
  assume "s = c # cs"
  then show "(cs, s) \<in> measure length" by simp
qed

declare re_sub_svg.simps [simp del]

text \<open>
  \<open>TARGET_WORDS\<close>, the Russian marker phrases of the source in their order:
  "#dopolnitelnye-vozmozhnosti", "dopolnitelnye vozmozhnosti" (additional
  capabilities), "#primery", "primery" (examples), "#smotrite-takzhe",
  "smotrite takzhe" (see also).
\<close>

definition ADDITIONAL_HEADING :: ustring where
  "ADDITIONAL_HEADING =
     [35, 1076, 1086, 1087, 1086, 1083, 1085, 1080, 1090, 1077, 1083, 1100, 1085, 1099, 1077,
      45, 1074, 1086, 1079, 1084, 1086, 1078, 1085, 1086, 1089, 1090, 1080]"

definition ADDITIONAL_INLINE :: ustring where
  "ADDITIONAL_INLINE =
     [1076, 1086, 1087, 1086, 1083, 1085, 1080, 1090, 1077, 1083, 1100, 1085, 1099, 1077,
      32, 1074, 1086, 1079, 1084, 1086, 1078, 1085, 1086, 1089, 1090, 1080]"

definition EXAMPLES_HEADING :: ustring where
  "EXAMPLES_HEADING = [35, 1087, 1088, 1080, 1084, 1077, 1088, 1099]"

definition EXAMPLES_INLINE :: ustring where
  "EXAMPLES_INLINE = [1087, 1088, 1080, 1084, 1077, 1088, 1099]"

definition SEE_ALSO_HEADING :: ustring where
  "SEE_ALSO_HEADING =
     [35, 1089, 1084, 1086, 1090, 1088, 1080, 1090, 1077, 45, 1090, 1072, 1082, 1078, 1077]"

definition SEE_ALSO_INLINE :: ustring where
  "SEE_ALSO_INLINE =
     [1089, 1084, 1086, 1090, 1088, 1080, 1090, 1077, 32, 1090, 1072, 1082, 1078, 1077]"

definition TARGET_WORDS :: "ustring list" where
  "TARGET_WORDS =
     [ADDITIONAL_HEADING, ADDITIONAL_INLINE, EXAMPLES_HEADING, EXAMPLES_INLINE,
      SEE_ALSO_HEADING, SEE_ALSO_INLINE]"

text \<open>
  The loop \<open>for word in TARGET_WORDS\<close>: the membership test is on the lower-cased
  text, \<open>rfind\<close> is on the text itself, and the guard \<open>cursor != -1\<close> sends a word that
  \<open>rfind\<close> does not find on to the next word.
\<close>

fun truncate_loop :: "(ustring \<Rightarrow> ustring) \<Rightarrow> ustring \<Rightarrow> ustring list \<Rightarrow> ustring" where
  "truncate_loop lower clean_text [] = clean_text"
| "truncate_loop lower clean_text (word # ws) =
     (if contains (lower clean_text) word then
        (let cursor = rfind clean_text word in
         if cursor \<noteq> -1 then take (nat cursor) clean_text
         else truncate_loop lower clean_text ws)
      else truncate_loop lower clean_text ws)"

definition pretiffy_data :: "(ustring \<Rightarrow> ustring) \<Rightarrow> ustring \<Rightarrow> ustring" where
  "pretiffy_data lower markdown_text =
     truncate_loop lower (re_sub_svg markdown_text) TARGET_WORDS"

section \<open>Metadata extractor: \<open>__get_block_metadata\<close>\<close>

datatype error = AttributeError | ValueError | OSError

record metadata =
  block_name :: ustring
  block_path :: ustring

definition NEWLINE :: nat where "NEWLINE = 10"
definition HASH :: nat where "HASH = 35"
definition SLASH :: nat where "SLASH = 47"
definition DASH :: nat where "DASH = 45"
definition DOT :: nat where "DOT = 46"
definition BAR :: nat where "BAR = 124"

text \<open>\<open>s.replace(a, b)\<close> for one-character \<open>a\<close> and \<open>b\<close>, and \<open>s.replace(a, "")\<close>.\<close>

definition replace_char :: "nat \<Rightarrow> nat \<Rightarrow> ustring \<Rightarrow> ustring" where
  "replace_char a b s = map (\<lambda>c. if c = a then b else c) s"

definition remove_char :: "nat \<Rightarrow> ustring \<Rightarrow> ustring" where
  "remove_char a s = filter (\<lambda>c. c \<noteq> a) s"

text \<open>
  \<open>markdown_text.split("\n")[0].replace("#", "").replace("/", "-").strip()\<close>.
  \<open>split\<close> always returns at least one piece, so element 0 exists for every input.
\<close>

definition get_block_name :: "ustring \<Rightarrow> ustring" where
  "get_block_name markdown_text =
     strip (replace_char SLASH DASH (remove_char HASH
       (takeWhile (\<lambda>c. c \<noteq> NEWLINE) markdown_text)))"

text \<open>
  The path marker of the source, "Put' v biblioteke:<br>" (path in library), and the
  pattern \<open>marker \s*(/[^|]+)\<close>. A match at the start of \<open>s\<close> is the marker, the
  longest run of white space (\<open>/\<close> is not white space, so a shorter run cannot help),
  a \<open>/\<close>, and the longest run of characters other than \<open>|\<close>, at least one;
  \<open>match_path s\<close> is group 1. \<open>re.search\<close> takes the leftmost position that matches.
\<close>

definition PATH_MARKER :: ustring where
  "PATH_MARKER =
     [1055, 1091, 1090, 1100, 32, 1074, 32, 1073, 1080, 1073, 1083, 1080, 1086, 1090, 1077,
      1082, 1077] @ ascii '':<br>''"

definition match_path :: "ustring \<Rightarrow> ustring option" where
  "match_path s =
     (if prefix PATH_MARKER s then
        (case dropWhile isspace (drop (length PATH_MARKER) s) of
           [] \<Rightarrow> None
         | c # r \<Rightarrow>
             if c = SLASH \<and> takeWhile (\<lambda>c. c \<noteq> BAR) r \<noteq> []
             then Some (SLASH # takeWhile (\<lambda>c. c \<noteq> BAR) r) else None)
      else None)"

fun search_path :: "ustring \<Rightarrow> ustring option" where
  "search_path [] = None"
| "search_path (c # s) =
     (case match_path (c # s) of Some g \<Rightarrow> Some g | None \<Rightarrow> search_path s)"

text \<open>
  \<open>re.search(...)\<close> returns \<open>None\<close> when nothing matches, and \<open>.group(1)\<close> on it
  raises \<open>AttributeError\<close>.
\<close>

definition get_block_metadata :: "ustring \<Rightarrow> error + metadata" where
  "get_block_metadata markdown_text =
     (let name = get_block_name markdown_text in
      case search_path markdown_text of
        None \<Rightarrow> Inl AttributeError
      | Some path \<Rightarrow> Inr \<lparr>block_name = name, block_path = path\<rparr>)"

section \<open>Persistence writer\<close>

text \<open>
  The object's fields. \<open>__init__\<close> leaves \<open>__blocked_libs\<close> empty;
  \<open>set_blocked_libs\<close> fills it.
\<close>

record downloader =
  base_url :: ustring
  raw_links :: "ustring list"
  blocked_libs :: "ustring list"
  doc_dir :: ustring

definition init :: downloader where
  "init = \<lparr>base_url = ascii ''https://engee.com/helpcenter/stable/ru-en/'',
           raw_links = [], blocked_libs = [], doc_dir = ascii ''documentation/''\<rparr>"

definition set_blocked_libs :: "downloader \<Rightarrow> downloader" where
  "set_blocked_libs self =
     self\<lparr>blocked_libs := [ascii ''/interfaces/'', ascii ''/ritm/'']\<rparr>"

text \<open>
  The file system is a map from path to content. What \<open>json.dumps(metadata)\<close> writes
  is kept as the metadata itself. The environment says, for each path, how a write there
  ends: it succeeds; \<open>open\<close> raises and the file is untouched; the call of \<open>write\<close>
  raises (the text is larger than the buffer and is flushed at once); or \<open>write\<close>
  returns with the text in the buffer and the flush at closing time fails. After
  \<open>open\<close> has succeeded in mode \<open>"w"\<close> a failure leaves a truncated file, \<open>Partial\<close>.
\<close>

datatype content = Json metadata | Markdown ustring | Partial

type_synonym files = "ustring \<rightharpoonup> content"

datatype write_outcome = Written | OpenFails | WriteFails | FlushFails

text \<open>
  \<open>with open(path, "w") as f: f.write(c)\<close>: the file is closed on leaving the block,
  so a failing flush raises there.
\<close>

definition write_file ::
  "(ustring \<Rightarrow> write_outcome) \<Rightarrow> files \<Rightarrow> ustring \<Rightarrow> content \<Rightarrow> (error + unit) \<times> files" where
  "write_file env fs path c =
     (case env path of
        Written \<Rightarrow> (Inr (), fs(path \<mapsto> c))
      | OpenFails \<Rightarrow> (Inl OSError, fs)
      | WriteFails \<Rightarrow> (Inl OSError, fs(path \<mapsto> Partial))
      | FlushFails \<Rightarrow> (Inl OSError, fs(path \<mapsto> Partial)))"

text \<open>
  \<open>open(path, "w").write(c)\<close>: the file object is never closed by the program; it is
  finalized when the statement ends, and an error of the flush made then is not raised.
  The statement goes through, and the file is left truncated.
\<close>

definition write_unclosed ::
  "(ustring \<Rightarrow> write_outcome) \<Rightarrow> files \<Rightarrow> ustring \<Rightarrow> content \<Rightarrow> (error + unit) \<times> files" where
  "write_unclosed env fs path c =
     (case env path of
        Written \<Rightarrow> (Inr (), fs(path \<mapsto> c))
      | OpenFails \<Rightarrow> (Inl OSError, fs)
      | WriteFails \<Rightarrow> (Inl OSError, fs(path \<mapsto> Partial))
      | FlushFails \<Rightarrow> (Inr (), fs(path \<mapsto> Partial)))"

text \<open>
  \<open>__save_block_metadata\<close>: the stem is \<open>block_path\<close> with every \<open>/\<close> replaced by
  \<open>.\<close>; an empty one raises \<open>ValueError\<close>. The write is
  \<open>open(...).write(json.dumps(metadata))\<close>, with no \<open>with\<close> and not inside a \<open>try\<close>.
\<close>

definition save_block_metadata ::
  "(ustring \<Rightarrow> write_outcome) \<Rightarrow> downloader \<Rightarrow> files \<Rightarrow> metadata \<Rightarrow> (error + unit) \<times> files" where
  "save_block_metadata env self fs meta =
     (let path = replace_char SLASH DOT (block_path meta) in
      if path \<noteq> [] then
        write_unclosed env fs (doc_dir self @ rstrip path @ ascii ''.json'') (Json meta)
      else (Inl ValueError, fs))"

text \<open>
  \<open>__save_md\<close>, from the converted Markdown on (\<open>convert_with_visitor\<close> is the external
  converter; its result is the argument \<open>markdown_text\<close>). Only the write of the
  content file is inside \<open>try ... except: return False\<close>.
\<close>

definition save_md ::
  "(ustring \<Rightarrow> ustring) \<Rightarrow> (ustring \<Rightarrow> write_outcome) \<Rightarrow> downloader \<Rightarrow> files \<Rightarrow> ustring
     \<Rightarrow> (error + bool) \<times> files" where
  "save_md lower env self fs markdown_text =
     (let markdown = pretiffy_data lower markdown_text in
      case get_block_metadata markdown of
        Inl e \<Rightarrow> (Inl e, fs)
      | Inr meta \<Rightarrow>
          (case save_block_metadata env self fs meta of
             (Inl e, fs1) \<Rightarrow> (Inl e, fs1)
           | (Inr u, fs1) \<Rightarrow>
               (let path = replace_char SLASH DOT (block_path meta) in
                case write_file env fs1 (doc_dir self @ rstrip path @ ascii ''.md'')
                       (Markdown markdown) of
                  (Inl e, fs2) \<Rightarrow> (Inr False, fs2)
                | (Inr v, fs2) \<Rightarrow> (Inr True, fs2))))"

section \<open>Page validator: \<open>__validate_page\<close>\<close>

text \<open>The phrase tested by the validator, "put' v biblioteke" (path in library).\<close>

definition PATH_PHRASE :: ustring where
  "PATH_PHRASE =
     [1087, 1091, 1090, 1100, 32, 1074, 32, 1073, 1080, 1073, 1083, 1080, 1086, 1090, 1077,
      1082, 1077]"

definition validate_page :: "(ustring \<Rightarrow> ustring) \<Rightarrow> downloader \<Rightarrow> ustring \<Rightarrow> bool" where
  "validate_page lower self body_text =
     (let body = lower body_text in
      if contains body PATH_PHRASE then
        (if list_ex (\<lambda>blocked_type. contains body blocked_type) (blocked_libs self)
         then False else True)
      else False)"

section \<open>Crawl orchestrator\<close>

text \<open>
  What the HTTP client and the HTML parser deliver. For the index page: the status and,
  when an article of class \<open>doc ru-en\<close> exists, the \<open>href\<close>s of its \<open>xref page\<close>
  anchors. For a block page: the status and, when the article exists, its \<open>.text\<close> and
  the Markdown the converter makes of it; \<open>soup.find\<close> returns \<open>None\<close> otherwise, and
  \<open>None.text\<close> raises \<open>AttributeError\<close>. Connection errors are outside the model.
\<close>

record index_page =
  index_status :: nat
  index_links :: "ustring list option"

record article =
  article_text :: ustring
  article_markdown :: ustring

record page =
  page_status :: nat
  page_article :: "article option"

definition parse_links :: "downloader \<Rightarrow> index_page \<Rightarrow> bool \<times> downloader" where
  "parse_links self response =
     (if index_status response = 200 then
        (case index_links response of
           Some links \<Rightarrow> (True, self\<lparr>raw_links := raw_links self @ links\<rparr>)
         | None \<Rightarrow> (False, self))
      else (False, self))"

definition catch_and_convert ::
  "(ustring \<Rightarrow> ustring) \<Rightarrow> (ustring \<Rightarrow> write_outcome) \<Rightarrow> downloader \<Rightarrow> files \<Rightarrow> page
     \<Rightarrow> (error + bool) \<times> files" where
  "catch_and_convert lower env self fs response =
     (if page_status response = 200 then
        (case page_article response of
           None \<Rightarrow> (Inl AttributeError, fs)
         | Some a \<Rightarrow>
             if validate_page lower self (article_text a) then
               (case save_md lower env self fs (article_markdown a) of
                  (Inl e, fs1) \<Rightarrow> (Inl e, fs1)
                | (Inr saved, fs1) \<Rightarrow> (if saved then (Inr True, fs1) else (Inr False, fs1)))
             else (Inr False, fs))
      else (Inr False, fs))"

text \<open>
  \<open>asyncio.gather(*tasks)\<close> with the default \<open>return_exceptions=False\<close>: an exception
  raised by a task is raised by \<open>gather\<close>, and no list of results is made. Each task
  runs without suspension from the arrival of its response to its return, so the tasks
  are a sequence, in the order in which the responses arrive. \<open>run_tasks\<close> runs the
  list it is given in list order and stops at the first exception; \<open>main\<close> gives it
  \<open>raw_links\<close>, one order of arrival among all. Whether the run ends with an exception,
  and the two counts when it does not, are the same for every order
  (\<open>run_tasks_raises_iff\<close>, \<open>run_tasks_counts_any_order\<close>); the files present after an
  exception are those of the order taken.
\<close>

fun run_tasks ::
  "(ustring \<Rightarrow> ustring) \<Rightarrow> (ustring \<Rightarrow> write_outcome) \<Rightarrow> downloader \<Rightarrow> (ustring \<Rightarrow> page)
     \<Rightarrow> files \<Rightarrow> ustring list \<Rightarrow> (error + bool list) \<times> files" where
  "run_tasks lower env self fetch fs [] = (Inr [], fs)"
| "run_tasks lower env self fetch fs (link # links) =
     (case catch_and_convert lower env self fs (fetch (base_url self @ link)) of
        (Inl e, fs1) \<Rightarrow> (Inl e, fs1)
      | (Inr b, fs1) \<Rightarrow>
          (case run_tasks lower env self fetch fs1 links of
             (Inl e, fs2) \<Rightarrow> (Inl e, fs2)
           | (Inr bs, fs2) \<Rightarrow> (Inr (b # bs), fs2)))"

text \<open>
  \<open>main\<close>: the result of \<open>parse_links\<close> is not looked at. The value returned is the
  pair printed at the end, \<open>results.count(True)\<close> and \<open>len(results)\<close>, or the exception
  that ends the run before anything is printed.
\<close>

definition main ::
  "(ustring \<Rightarrow> ustring) \<Rightarrow> (ustring \<Rightarrow> write_outcome) \<Rightarrow> downloader \<Rightarrow> index_page
     \<Rightarrow> (ustring \<Rightarrow> page) \<Rightarrow> files \<Rightarrow> (error + nat \<times> nat) \<times> files" where
  "main lower env self index fetch fs =
     (let self1 = snd (parse_links self index) in
      case run_tasks lower env self1 fetch fs (raw_links self1) of
        (Inl e, fs1) \<Rightarrow> (Inl e, fs1)
      | (Inr results, fs1) \<Rightarrow> (Inr (length (filter (\<lambda>b. b) results), length results), fs1))"

text \<open>
  The entry point: \<open>parser = EngeeBlockDocumentationDownloader()\<close> and then
  \<open>asyncio.run(parser.main())\<close>; nothing between them.
\<close>

definition entry_point ::
  "(ustring \<Rightarrow> ustring) \<Rightarrow> (ustring \<Rightarrow> write_outcome) \<Rightarrow> index_page \<Rightarrow> (ustring \<Rightarrow> page)
     \<Rightarrow> files \<Rightarrow> (error + nat \<times> nat) \<times> files" where
  "entry_point lower env index fetch fs = main lower env init index fetch fs"

section \<open>Notions of the specification\<close>

text \<open>
  A text has an embedded SVG image reference when \<open>removing_pattern\<close> matches at some
  position of it.
\<close>

fun has_svg_block :: "ustring \<Rightarrow> bool" where
  "has_svg_block [] = False"
| "has_svg_block (c # s) = (match_svg (c # s) \<noteq> None \<or> has_svg_block s)"

text \<open>
  The block name as the specification words it: the text before the first line break,
  with every \<open>#\<close> and every \<open>/\<close> stripped, trimmed.
\<close>

definition spec_block_name :: "ustring \<Rightarrow> ustring" where
  "spec_block_name markdown_text =
     strip (remove_char SLASH (remove_char HASH
       (takeWhile (\<lambda>c. c \<noteq> NEWLINE) markdown_text)))"

text \<open>
  The Markdown of the specification's round-trip example, "# Sum Block", a line break,
  "...", the path marker, " /Operations/Math |other text". The marker is the literal
  of the source, which the specification renders as "Path in library:<br>".
\<close>

definition sum_block_markdown :: ustring where
  "sum_block_markdown =
     ascii ''# Sum Block'' @ NEWLINE # ascii ''...'' @ PATH_MARKER @
     ascii '' /Operations/Math |other text''"

text \<open>
  Two texts for the truncation pass: "a primery b primery c smotrite takzhe d", with the
  "examples" phrase twice and the "see also" phrase after it; and
  "Primery foo smotrite takzhe bar", whose "examples" phrase is capitalised.
\<close>

definition two_examples_markdown :: ustring where
  "two_examples_markdown =
     ascii ''a '' @ EXAMPLES_INLINE @ ascii '' b '' @ EXAMPLES_INLINE @ ascii '' c '' @
     SEE_ALSO_INLINE @ ascii '' d''"

definition capitalised_examples_markdown :: ustring where
  "capitalised_examples_markdown =
     [1055, 1088, 1080, 1084, 1077, 1088, 1099] @ ascii '' foo '' @ SEE_ALSO_INLINE @
     ascii '' bar''"

section \<open>Example pages\<close>

text \<open>
  Three block pages with status 200, each with the capitalised label "Put' v biblioteke"
  in its article text: the Sum block; a block of the interfaces library; and a page
  whose Markdown has the label but not the marker \<open>label:<br>/path\<close>. \<open>example_site\<close>
  serves them at \<open>sum.html\<close>, \<open>can.html\<close> and \<open>bare.html\<close> under the base URL, and
  answers 404 elsewhere.
\<close>

definition PATH_LABEL :: ustring where
  "PATH_LABEL =
     [1055, 1091, 1090, 1100, 32, 1074, 32, 1073, 1080, 1073, 1083, 1080, 1086, 1090, 1077,
      1082, 1077]"

definition sum_page :: page where
  "sum_page =
     \<lparr>page_status = 200,
      page_article = Some
        \<lparr>article_text = ascii ''Sum Block '' @ PATH_LABEL @ ascii '': /Operations/Math'',
         article_markdown = sum_block_markdown\<rparr>\<rparr>"

definition can_page :: page where
  "can_page =
     \<lparr>page_status = 200,
      page_article = Some
        \<lparr>article_text = ascii ''CAN Receive '' @ PATH_LABEL @ ascii '': /Interfaces/CAN'',
         article_markdown =
           ascii ''# CAN Receive'' @ NEWLINE # PATH_MARKER @ ascii '' /Interfaces/CAN |''\<rparr>\<rparr>"

definition bare_page :: page where
  "bare_page =
     \<lparr>page_status = 200,
      page_article = Some
        \<lparr>article_text = ascii ''Libraries '' @ PATH_LABEL,
         article_markdown = ascii ''# Libraries'' @ NEWLINE # PATH_LABEL\<rparr>\<rparr>"

definition example_site :: "ustring \<Rightarrow> page" where
  "example_site url =
     (if url = base_url init @ ascii ''sum.html'' then sum_page
      else if url = base_url init @ ascii ''can.html'' then can_page
      else if url = base_url init @ ascii ''bare.html'' then bare_page
      else \<lparr>page_status = 404, page_article = None\<rparr>)"

section \<open>Substrings and \<open>rfind\<close>\<close>

lemma contains_iff: "contains t w \<longleftrightarrow> (\<exists>p s. t = p @ w @ s)"
proof (induction t)
  case Nil
  then show ?case by auto
next
  case (Cons c t)
  show ?case
  proof
    assume "contains (c # t) w"
    then consider "prefix w (c # t)" | "contains t w" by auto
    then show "\<exists>p s. c # t = p @ w @ s"
    proof cases
      case 1
      then obtain s where "c # t = w @ s" by (auto simp: prefix_def)
      then have "c # t = [] @ w @ s" by simp
      then show ?thesis by blast
    next
      case 2
      with Cons.IH obtain p s where "t = p @ w @ s" by blast
      then have "c # t = (c # p) @ w @ s" by simp
      then show ?thesis by blast
    qed
  next
    assume "\<exists>p s. c # t = p @ w @ s"
    then obtain p s where e: "c # t = p @ w @ s" by blast
    show "contains (c # t) w"
    proof (cases p)
      case Nil
      with e have "prefix w (c # t)" by (simp add: prefix_def)
      then show ?thesis by simp
    next
      case (Cons a p')
      with e have "t = p' @ w @ s" by simp
      with Cons.IH have "contains t w" by blast
      then show ?thesis by simp
    qed
  qed
qed

lemma rfind_ge: "- 1 \<le> rfind t w"
  by (induction t) (auto simp: Let_def)

lemma rfind_none_iff: "rfind t w = - 1 \<longleftrightarrow> \<not> contains t w"
proof (induction t)
  case Nil
  then show ?case by simp
next
  case (Cons c t)
  have "- 1 \<le> rfind t w" by (rule rfind_ge)
  then have "rfind t w + 1 \<noteq> - 1" by arith
  with Cons show ?case by (auto simp: Let_def)
qed

lemma rfind_last:
  "contains t w \<Longrightarrow>
     (\<exists>s. t = take (nat (rfind t w)) t @ w @ s) \<and>
     (\<forall>p s. t = p @ w @ s \<longrightarrow> length p \<le> nat (rfind t w)) \<and>
     nat (rfind t w) \<le> length t"
proof (induction t)
  case Nil
  then show ?case by auto
next
  case (Cons c t)
  have ge: "- 1 \<le> rfind t w" by (rule rfind_ge)
  show ?case
  proof (cases "rfind t w = - 1")
    case True
    then have nc: "\<not> contains t w" by (simp add: rfind_none_iff)
    with Cons.prems have pre: "prefix w (c # t)" by simp
    from True pre have r0: "rfind (c # t) w = 0" by (simp add: Let_def)
    from pre obtain s where s: "c # t = w @ s" by (auto simp: prefix_def)
    have "\<forall>p s. c # t = p @ w @ s \<longrightarrow> length p \<le> 0"
    proof (intro allI impI)
      fix p s' assume e: "c # t = p @ w @ s'"
      show "length p \<le> 0"
      proof (cases p)
        case Nil then show ?thesis by simp
      next
        case (Cons a p')
        with e have "t = p' @ w @ s'" by simp
        then have "contains t w" unfolding contains_iff by blast
        with nc show ?thesis by simp
      qed
    qed
    with r0 s show ?thesis by auto
  next
    case False
    then have ct: "contains t w" by (simp add: rfind_none_iff)
    from False ge have pos: "0 \<le> rfind t w" by arith
    from False have r: "rfind (c # t) w = rfind t w + 1" by (simp add: Let_def)
    from pos have n: "nat (rfind t w + 1) = Suc (nat (rfind t w))" by arith
    from Cons.IH[OF ct] obtain s where
      s: "t = take (nat (rfind t w)) t @ w @ s"
      and l: "\<forall>p s. t = p @ w @ s \<longrightarrow> length p \<le> nat (rfind t w)"
      and b: "nat (rfind t w) \<le> length t" by blast
    have "c # t = c # (take (nat (rfind t w)) t @ w @ s)"
      by (rule arg_cong[where f = "(#) c", OF s])
    then have "c # t = take (nat (rfind (c # t) w)) (c # t) @ w @ s"
      unfolding r n by simp
    moreover have "\<forall>p s. c # t = p @ w @ s \<longrightarrow> length p \<le> nat (rfind (c # t) w)"
    proof (intro allI impI)
      fix p s' assume e: "c # t = p @ w @ s'"
      show "length p \<le> nat (rfind (c # t) w)"
      proof (cases p)
        case Nil then show ?thesis by simp
      next
        case (Cons a p')
        with e have "t = p' @ w @ s'" by simp
        with l have "length p' \<le> nat (rfind t w)" by blast
        with Cons show ?thesis unfolding r n by simp
      qed
    qed
    moreover have "nat (rfind (c # t) w) \<le> length (c # t)"
      using b unfolding r n by simp
    ultimately show ?thesis by blast
  qed
qed

lemma truncate_loop_find:
  "truncate_loop lower t ws =
     (case find (\<lambda>w. contains (lower t) w \<and> contains t w) ws of
        None \<Rightarrow> t
      | Some w \<Rightarrow> take (nat (rfind t w)) t)"
  by (induction ws) (auto simp: Let_def rfind_none_iff)

lemma find_split:
  "ws = earlier @ w # later \<Longrightarrow> \<forall>v\<in>set earlier. \<not> P v \<Longrightarrow> P w \<Longrightarrow> find P ws = Some w"
  by (induction earlier arbitrary: ws) auto

lemma find_none: "\<forall>v\<in>set ws. \<not> P v \<Longrightarrow> find P ws = None"
  by (induction ws) auto

lemmas literal_defs =
  ADDITIONAL_HEADING_def ADDITIONAL_INLINE_def EXAMPLES_HEADING_def EXAMPLES_INLINE_def
  SEE_ALSO_HEADING_def SEE_ALSO_INLINE_def TARGET_WORDS_def SVG_OPEN_def PATH_MARKER_def
  PATH_PHRASE_def RPAREN_def NEWLINE_def HASH_def SLASH_def DASH_def DOT_def BAR_def ascii_def

lemma contains_map: "contains t w \<Longrightarrow> contains (map f t) (map f w)"
proof -
  assume "contains t w"
  then obtain p s where "t = p @ w @ s" unfolding contains_iff by blast
  then have "map f t = map f p @ map f w @ map f s" by simp
  then show ?thesis unfolding contains_iff by blast
qed

text \<open>
  The marker phrases are lower-case already, so \<open>py_lower\<close> keeps every exact
  occurrence of one: what \<open>rfind\<close> finds, the case-insensitive test finds too.
\<close>

lemma py_lower_keeps_markers:
  assumes "w \<in> set TARGET_WORDS" and "contains t w"
  shows "contains (py_lower t) w"
proof -
  from assms(1) have "map lower_cp w = w"
    by (auto simp: literal_defs lower_cp_def)
  with contains_map[OF assms(2), of lower_cp] show ?thesis
    by (simp add: py_lower_def)
qed

section \<open>Boilerplate truncation\<close>

text \<open>
  C1, as the code has it. The pass works on the text left by the SVG strip,
  \<open>re_sub_svg markdown_text\<close>. Take the first phrase of \<open>TARGET_WORDS\<close>, in list order,
  that occurs in that text in its exact lower-case spelling (and is seen by the
  case-insensitive test): the result is the text up to the last occurrence of that phrase,
  so the text is the result, the phrase and a remainder, and no occurrence of the phrase
  starts after the cut. A phrase that occurs only in another letter case is passed over.
  When no phrase occurs in its exact spelling, the result is the stripped text unchanged.
\<close>

theorem pretiffy_data_cuts_at_last_exact_occurrence:
  "(TARGET_WORDS = earlier @ w # later \<and>
    (\<forall>v\<in>set earlier. \<not> contains (re_sub_svg markdown_text) v) \<and>
    contains (re_sub_svg markdown_text) w \<and>
    contains (lower (re_sub_svg markdown_text)) w \<longrightarrow>
      (\<exists>rest. re_sub_svg markdown_text = pretiffy_data lower markdown_text @ w @ rest) \<and>
      (\<forall>p s. re_sub_svg markdown_text = p @ w @ s \<longrightarrow>
         length p \<le> length (pretiffy_data lower markdown_text))) \<and>
   ((\<forall>v\<in>set TARGET_WORDS. \<not> contains (re_sub_svg markdown_text) v) \<longrightarrow>
      pretiffy_data lower markdown_text = re_sub_svg markdown_text)"
proof (intro conjI impI)
  let ?t = "re_sub_svg markdown_text"
  let ?P = "\<lambda>w. contains (lower ?t) w \<and> contains ?t w"
  assume "\<forall>v\<in>set TARGET_WORDS. \<not> contains ?t v"
  then have "find ?P TARGET_WORDS = None"
    by (intro find_none) simp
  then show "pretiffy_data lower markdown_text = ?t"
    by (simp add: pretiffy_data_def truncate_loop_find)
next
  let ?t = "re_sub_svg markdown_text"
  let ?P = "\<lambda>w. contains (lower ?t) w \<and> contains ?t w"
  assume a: "TARGET_WORDS = earlier @ w # later \<and>
    (\<forall>v\<in>set earlier. \<not> contains ?t v) \<and> contains ?t w \<and> contains (lower ?t) w"
  then have "find ?P TARGET_WORDS = Some w"
    by (intro find_split[where earlier = earlier and later = later]) auto
  then have cut: "pretiffy_data lower markdown_text = take (nat (rfind ?t w)) ?t"
    by (simp add: pretiffy_data_def truncate_loop_find)
  from a have c: "contains ?t w" by simp
  from rfind_last[OF c] obtain s where
    s: "?t = take (nat (rfind ?t w)) ?t @ w @ s"
    and l: "\<forall>p s. ?t = p @ w @ s \<longrightarrow> length p \<le> nat (rfind ?t w)"
    and b: "nat (rfind ?t w) \<le> length ?t" by blast
  from b have len: "length (pretiffy_data lower markdown_text) = nat (rfind ?t w)"
    by (simp add: cut)
  from s show "\<exists>rest. ?t = pretiffy_data lower markdown_text @ w @ rest"
    unfolding cut by blast
  from l show "\<forall>p s. ?t = p @ w @ s \<longrightarrow> length p \<le> length (pretiffy_data lower markdown_text)"
    unfolding len by blast
qed

text \<open>
  The theorem at the text "a primery b primery c smotrite takzhe d": the cut is at the
  second "primery".
\<close>

theorem pretiffy_data_cuts_at_last_exact_occurrence_witness:
  "TARGET_WORDS =
     [ADDITIONAL_HEADING, ADDITIONAL_INLINE, EXAMPLES_HEADING] @ EXAMPLES_INLINE #
     [SEE_ALSO_HEADING, SEE_ALSO_INLINE] \<and>
   \<not> contains (re_sub_svg two_examples_markdown) ADDITIONAL_HEADING \<and>
   \<not> contains (re_sub_svg two_examples_markdown) ADDITIONAL_INLINE \<and>
   \<not> contains (re_sub_svg two_examples_markdown) EXAMPLES_HEADING \<and>
   contains (re_sub_svg two_examples_markdown) EXAMPLES_INLINE \<and>
   contains (py_lower (re_sub_svg two_examples_markdown)) EXAMPLES_INLINE \<and>
   (\<exists>rest. re_sub_svg two_examples_markdown =
      pretiffy_data py_lower two_examples_markdown @ EXAMPLES_INLINE @ rest) \<and>
   pretiffy_data py_lower two_examples_markdown =
     ascii ''a '' @ EXAMPLES_INLINE @ ascii '' b ''"
proof -
  have clean: "re_sub_svg two_examples_markdown = two_examples_markdown"
    by (simp add: two_examples_markdown_def re_sub_svg.simps match_svg_def literal_defs)
  have h: "TARGET_WORDS =
      [ADDITIONAL_HEADING, ADDITIONAL_INLINE, EXAMPLES_HEADING] @ EXAMPLES_INLINE #
      [SEE_ALSO_HEADING, SEE_ALSO_INLINE] \<and>
    (\<forall>v\<in>set [ADDITIONAL_HEADING, ADDITIONAL_INLINE, EXAMPLES_HEADING].
        \<not> contains (re_sub_svg two_examples_markdown) v) \<and>
    contains (re_sub_svg two_examples_markdown) EXAMPLES_INLINE \<and>
    contains (py_lower (re_sub_svg two_examples_markdown)) EXAMPLES_INLINE"
    unfolding clean
    by (simp add: two_examples_markdown_def literal_defs py_lower_def lower_cp_def)
  have v: "pretiffy_data py_lower two_examples_markdown =
      ascii ''a '' @ EXAMPLES_INLINE @ ascii '' b ''"
    by (simp add: two_examples_markdown_def pretiffy_data_def re_sub_svg.simps match_svg_def
        literal_defs py_lower_def lower_cp_def)
  from pretiffy_data_cuts_at_last_exact_occurrence
    [of "[ADDITIONAL_HEADING, ADDITIONAL_INLINE, EXAMPLES_HEADING]" EXAMPLES_INLINE
        "[SEE_ALSO_HEADING, SEE_ALSO_INLINE]" two_examples_markdown py_lower] h
  have "\<exists>rest. re_sub_svg two_examples_markdown =
      pretiffy_data py_lower two_examples_markdown @ EXAMPLES_INLINE @ rest"
    by blast
  with h v show ?thesis by simp
qed

text \<open>
  C1 as stated fails on "Primery foo smotrite takzhe bar", whose "examples" marker is
  capitalised: the case-insensitive test finds "primery", \<open>rfind\<close> does not, and the cut
  is made at "smotrite takzhe" (see also); what is kept is "Primery foo ".
\<close>

theorem pretiffy_data_cut_at_see_also_counterexample:
  "contains (py_lower capitalised_examples_markdown) EXAMPLES_INLINE \<and>
   pretiffy_data py_lower capitalised_examples_markdown =
     [1055, 1088, 1080, 1084, 1077, 1088, 1099] @ ascii '' foo '' \<and>
   capitalised_examples_markdown =
     pretiffy_data py_lower capitalised_examples_markdown @ SEE_ALSO_INLINE @ ascii '' bar''"
  by (simp add: capitalised_examples_markdown_def pretiffy_data_def re_sub_svg.simps
      match_svg_def literal_defs py_lower_def lower_cp_def)

section \<open>SVG strip\<close>

lemma match_svg_iff:
  "match_svg s = Some rest \<longleftrightarrow>
     (\<exists>payload. s = SVG_OPEN @ payload @ RPAREN # rest \<and> payload \<noteq> [] \<and>
        RPAREN \<notin> set payload)"
proof
  assume m: "match_svg s = Some rest"
  define r where "r = drop (length SVG_OPEN) s"
  define payload where "payload = takeWhile (\<lambda>c. c \<noteq> RPAREN) r"
  define d where "d = dropWhile (\<lambda>c. c \<noteq> RPAREN) r"
  from m have p: "prefix SVG_OPEN s" and ne: "payload \<noteq> []" and dne: "d \<noteq> []"
    and e: "rest = tl d"
    by (auto simp: match_svg_def r_def payload_def d_def Let_def split: if_splits)
  from p have s: "s = SVG_OPEN @ r" by (auto simp: prefix_def r_def)
  have r: "r = payload @ d" by (simp add: payload_def d_def)
  from dne have "\<not> (hd d \<noteq> RPAREN)" unfolding d_def by (rule hd_dropWhile)
  with dne e have d: "d = RPAREN # rest" by (cases d) auto
  have "RPAREN \<notin> set payload" unfolding payload_def by (auto dest: set_takeWhileD)
  with s r d ne show "\<exists>payload. s = SVG_OPEN @ payload @ RPAREN # rest \<and> payload \<noteq> [] \<and>
        RPAREN \<notin> set payload" by auto
next
  assume "\<exists>payload. s = SVG_OPEN @ payload @ RPAREN # rest \<and> payload \<noteq> [] \<and>
        RPAREN \<notin> set payload"
  then obtain payload where s: "s = SVG_OPEN @ payload @ RPAREN # rest"
    and ne: "payload \<noteq> []" and no: "RPAREN \<notin> set payload" by blast
  from no have t: "takeWhile (\<lambda>c. c \<noteq> RPAREN) (payload @ RPAREN # rest) = payload"
    by (subst takeWhile_append2) auto
  from no have d: "dropWhile (\<lambda>c. c \<noteq> RPAREN) (payload @ RPAREN # rest) = RPAREN # rest"
    by (subst dropWhile_append2) auto
  show "match_svg s = Some rest"
    unfolding match_svg_def s by (simp add: t d ne Let_def)
qed

lemma has_svg_block_iff:
  "has_svg_block t \<longleftrightarrow>
     (\<exists>pre payload post. t = pre @ SVG_OPEN @ payload @ RPAREN # post \<and> payload \<noteq> [] \<and>
        RPAREN \<notin> set payload)"
proof (induction t)
  case Nil
  then show ?case by (simp add: SVG_OPEN_def ascii_def)
next
  case (Cons c t)
  show ?case
  proof
    assume "has_svg_block (c # t)"
    then consider rest where "match_svg (c # t) = Some rest" | "has_svg_block t" by auto
    then show "\<exists>pre payload post. c # t = pre @ SVG_OPEN @ payload @ RPAREN # post \<and>
        payload \<noteq> [] \<and> RPAREN \<notin> set payload"
    proof cases
      case 1
      then obtain payload where "c # t = [] @ SVG_OPEN @ payload @ RPAREN # rest"
        "payload \<noteq> []" "RPAREN \<notin> set payload" by (auto simp: match_svg_iff)
      then show ?thesis by blast
    next
      case 2
      with Cons.IH obtain pre payload post where
        "t = pre @ SVG_OPEN @ payload @ RPAREN # post" "payload \<noteq> []" "RPAREN \<notin> set payload"
        by blast
      then have "c # t = (c # pre) @ SVG_OPEN @ payload @ RPAREN # post \<and> payload \<noteq> [] \<and>
        RPAREN \<notin> set payload" by simp
      then show ?thesis by blast
    qed
  next
    assume "\<exists>pre payload post. c # t = pre @ SVG_OPEN @ payload @ RPAREN # post \<and>
        payload \<noteq> [] \<and> RPAREN \<notin> set payload"
    then obtain pre payload post where e: "c # t = pre @ SVG_OPEN @ payload @ RPAREN # post"
      and ne: "payload \<noteq> []" and no: "RPAREN \<notin> set payload" by blast
    show "has_svg_block (c # t)"
    proof (cases pre)
      case Nil
      with e ne no have "match_svg (c # t) = Some post" by (auto simp: match_svg_iff)
      then show ?thesis by simp
    next
      case (Cons a pre')
      with e have "t = pre' @ SVG_OPEN @ payload @ RPAREN # post" by simp
      with ne no Cons.IH have "has_svg_block t" by blast
      then show ?thesis by simp
    qed
  qed
qed

lemma re_sub_svg_unchanged: "\<not> has_svg_block t \<Longrightarrow> re_sub_svg t = t"
proof (induction t)
  case Nil
  have "match_svg [] = None" by (simp add: match_svg_def SVG_OPEN_def ascii_def)
  then show ?case by (simp add: re_sub_svg.simps)
next
  case (Cons c t)
  then have "match_svg (c # t) = None" and "re_sub_svg t = t" by auto
  then show ?case by (subst re_sub_svg.simps) simp
qed

lemma svg_open_no_overlap:
  assumes p: "prefix SVG_OPEN (u @ SVG_OPEN @ r)" and u: "u \<noteq> []"
  shows "prefix SVG_OPEN u"
proof -
  from p consider "prefix SVG_OPEN u"
    | us where "SVG_OPEN = u @ us" "prefix us (SVG_OPEN @ r)"
    by (auto simp: prefix_append)
  then show ?thesis
  proof cases
    case 1 then show ?thesis .
  next
    case 2
    show ?thesis
    proof (cases us)
      case Nil
      with 2 show ?thesis by simp
    next
      case (Cons b us')
      have hdP: "SVG_OPEN = 91 # tl SVG_OPEN" by (simp add: SVG_OPEN_def ascii_def)
      from 2(2) Cons have "prefix (b # us') (91 # tl SVG_OPEN @ r)"
        by (subst (asm) hdP) simp
      then have b: "b = 91" by simp
      from u obtain a u' where "u = a # u'" by (cases u) auto
      with 2(1) Cons have "SVG_OPEN = a # (u' @ b # us')" by simp
      then have "tl SVG_OPEN = u' @ b # us'" by (metis list.sel(3))
      then have "b \<in> set (tl SVG_OPEN)" by simp
      moreover have "91 \<notin> set (tl SVG_OPEN)" by (simp add: SVG_OPEN_def ascii_def)
      ultimately show ?thesis using b by simp
    qed
  qed
qed

lemma re_sub_svg_block:
  assumes ne: "payload \<noteq> []" and no: "RPAREN \<notin> set payload"
  shows "\<not> contains pre SVG_OPEN \<Longrightarrow>
    re_sub_svg (pre @ SVG_OPEN @ payload @ RPAREN # post) = pre @ re_sub_svg post"
proof (induction pre)
  case Nil
  from ne no have "match_svg (SVG_OPEN @ payload @ RPAREN # post) = Some post"
    by (auto simp: match_svg_iff)
  then show ?case by (subst re_sub_svg.simps) simp
next
  case (Cons c pre)
  then have np: "\<not> prefix SVG_OPEN (c # pre)" and nc: "\<not> contains pre SVG_OPEN" by auto
  have "\<not> prefix SVG_OPEN ((c # pre) @ SVG_OPEN @ payload @ RPAREN # post)"
    using svg_open_no_overlap[of "c # pre" "payload @ RPAREN # post"] np by auto
  then have "match_svg (c # pre @ SVG_OPEN @ payload @ RPAREN # post) = None"
    by (simp add: match_svg_def)
  then have "re_sub_svg ((c # pre) @ SVG_OPEN @ payload @ RPAREN # post) =
      c # re_sub_svg (pre @ SVG_OPEN @ payload @ RPAREN # post)"
    by (subst re_sub_svg.simps) simp
  with Cons.IH[OF nc] show ?case by simp
qed

text \<open>
  C8, as the code has it. An image reference is the opening sequence
  \<open>[SVG Image](data:image/svg+xml;base64,\<close>, a payload of one or more characters other
  than \<open>)\<close>, and \<open>)\<close>. When the text before the reference does not contain the opening
  sequence, the strip removes the reference and leaves that text as it is, whatever the
  length of the payload; the text after the reference is stripped in the same way, and
  is left as it is when it has no image reference of its own.
\<close>

theorem re_sub_svg_removes_embedded_block:
  assumes "payload \<noteq> []" and "RPAREN \<notin> set payload" and "\<not> contains pre SVG_OPEN"
  shows "re_sub_svg (pre @ SVG_OPEN @ payload @ RPAREN # post) = pre @ re_sub_svg post \<and>
    (\<not> has_svg_block post \<longrightarrow>
       re_sub_svg (pre @ SVG_OPEN @ payload @ RPAREN # post) = pre @ post)"
  using assms by (simp add: re_sub_svg_block re_sub_svg_unchanged)

theorem re_sub_svg_removes_embedded_block_witness:
  "ascii ''AAAA'' \<noteq> [] \<and> RPAREN \<notin> set (ascii ''AAAA'') \<and>
   \<not> contains (ascii ''ab '') SVG_OPEN \<and> \<not> has_svg_block (ascii '' cd'') \<and>
   re_sub_svg (ascii ''ab '' @ SVG_OPEN @ ascii ''AAAA'' @ RPAREN # ascii '' cd'') =
     ascii ''ab '' @ ascii '' cd''"
proof -
  have h1: "ascii ''AAAA'' \<noteq> []" and h2: "RPAREN \<notin> set (ascii ''AAAA'')"
    and h3: "\<not> contains (ascii ''ab '') SVG_OPEN"
    and h4: "\<not> has_svg_block (ascii '' cd'')"
    by (simp_all add: literal_defs match_svg_def)
  from re_sub_svg_removes_embedded_block[OF h1 h2 h3, of "ascii '' cd''"] h1 h2 h3 h4
  show ?thesis by blast
qed

text \<open>
  C8 as stated fails when the text before the reference ends in a dangling opening
  sequence: in "x " + opening + opening + "AAAA)" + " y" the reference opening + "AAAA)"
  is embedded between "x " + opening and " y", but the pattern matches from the first
  opening sequence, and the strip takes that part of the surrounding text too.
\<close>

theorem re_sub_svg_dangling_open_counterexample:
  "re_sub_svg ((ascii ''x '' @ SVG_OPEN) @ (SVG_OPEN @ ascii ''AAAA'' @ [RPAREN]) @ ascii '' y'') =
     ascii ''x  y'' \<and>
   re_sub_svg ((ascii ''x '' @ SVG_OPEN) @ (SVG_OPEN @ ascii ''AAAA'' @ [RPAREN]) @ ascii '' y'') \<noteq>
     (ascii ''x '' @ SVG_OPEN) @ ascii '' y''"
  by (simp add: re_sub_svg.simps match_svg_def literal_defs)

text \<open>
  C9. A text with no embedded SVG image reference in which no marker phrase is present
  (for every phrase, the exact search or the case-insensitive test does not find it)
  is returned unchanged by the sanitizer; so sanitizing it twice is sanitizing it once.
\<close>

theorem pretiffy_data_unchanged_without_markers:
  assumes "\<not> has_svg_block t"
    and "\<forall>w\<in>set TARGET_WORDS. \<not> contains t w \<or> \<not> contains (lower t) w"
  shows "pretiffy_data lower t = t \<and>
    pretiffy_data lower (pretiffy_data lower t) = pretiffy_data lower t"
proof -
  from assms(1) have c: "re_sub_svg t = t" by (rule re_sub_svg_unchanged)
  from assms(2) have "find (\<lambda>w. contains (lower t) w \<and> contains t w) TARGET_WORDS = None"
    by (intro find_none) auto
  then have "pretiffy_data lower t = t"
    by (simp add: pretiffy_data_def c truncate_loop_find)
  then show ?thesis by simp
qed

theorem pretiffy_data_unchanged_without_markers_witness:
  "\<not> has_svg_block (ascii ''# Sum Block'' @ NEWLINE # ascii ''adds its inputs'') \<and>
   pretiffy_data py_lower (ascii ''# Sum Block'' @ NEWLINE # ascii ''adds its inputs'') =
     ascii ''# Sum Block'' @ NEWLINE # ascii ''adds its inputs'' \<and>
   pretiffy_data py_lower
     (pretiffy_data py_lower (ascii ''# Sum Block'' @ NEWLINE # ascii ''adds its inputs'')) =
     pretiffy_data py_lower (ascii ''# Sum Block'' @ NEWLINE # ascii ''adds its inputs'')"
proof -
  let ?t = "ascii ''# Sum Block'' @ NEWLINE # ascii ''adds its inputs''"
  have h1: "\<not> has_svg_block ?t"
    by (simp add: literal_defs match_svg_def)
  have h2: "\<forall>w\<in>set TARGET_WORDS. \<not> contains ?t w \<or> \<not> contains (py_lower ?t) w"
    by (simp add: literal_defs)
  from pretiffy_data_unchanged_without_markers[of ?t py_lower, OF h1 h2] h1
  show ?thesis by blast
qed

section \<open>Metadata\<close>

lemmas page_defs = sum_block_markdown_def PATH_LABEL_def
  sum_page_def can_page_def bare_page_def example_site_def init_def set_blocked_libs_def

lemma last_dropWhile: "dropWhile P xs \<noteq> [] \<Longrightarrow> last (dropWhile P xs) = last xs"
  by (induction xs) (auto split: if_splits)

lemma strip_trimmed:
  "strip s = [] \<or> (\<not> isspace (hd (strip s)) \<and> \<not> isspace (last (strip s)))"
proof (cases "strip s = []")
  case True
  then show ?thesis by simp
next
  case False
  define d where "d = dropWhile isspace s"
  define x where "x = dropWhile isspace (rev d)"
  have st: "strip s = rev x" by (simp add: strip_def rstrip_def d_def x_def)
  with False have xne: "x \<noteq> []" by simp
  then have "\<not> isspace (hd x)" unfolding x_def by (rule hd_dropWhile)
  with xne have l: "\<not> isspace (last (strip s))" by (simp add: st last_rev)
  from xne have "last x = last (rev d)" unfolding x_def by (rule last_dropWhile)
  moreover from xne have dne: "d \<noteq> []" by (auto simp: x_def)
  ultimately have "hd (strip s) = hd d" using xne by (simp add: st hd_rev last_rev)
  moreover from dne have "\<not> isspace (hd d)" unfolding d_def by (rule hd_dropWhile)
  ultimately show ?thesis using l by simp
qed

lemma set_strip: "set (strip s) \<subseteq> set s"
proof -
  have "set (strip s) \<subseteq> set (dropWhile isspace s)"
    by (auto simp: strip_def rstrip_def dest: set_dropWhileD)
  then show ?thesis by (auto dest: set_dropWhileD)
qed

lemma get_block_name_chars:
  "HASH \<notin> set (get_block_name md) \<and> SLASH \<notin> set (get_block_name md) \<and>
   NEWLINE \<notin> set (get_block_name md)"
proof -
  let ?l = "replace_char SLASH DASH (remove_char HASH (takeWhile (\<lambda>c. c \<noteq> NEWLINE) md))"
  have "HASH \<notin> set ?l"
    by (auto simp: replace_char_def remove_char_def HASH_def DASH_def split: if_splits)
  moreover have "SLASH \<notin> set ?l"
    by (auto simp: replace_char_def remove_char_def SLASH_def DASH_def split: if_splits)
  moreover have "NEWLINE \<notin> set ?l"
    by (auto simp: replace_char_def remove_char_def NEWLINE_def DASH_def
        dest: set_takeWhileD split: if_splits)
  moreover have "set (get_block_name md) \<subseteq> set ?l"
    unfolding get_block_name_def by (rule set_strip)
  ultimately show ?thesis by blast
qed

lemma get_block_name_first_line:
  assumes "NEWLINE \<notin> set line"
  shows "get_block_name (line @ NEWLINE # rest) = get_block_name line \<and>
    get_block_name line =
      strip (map (\<lambda>c. if c = SLASH then DASH else c) (filter (\<lambda>c. c \<noteq> HASH) line))"
proof (intro conjI)
  from assms have a: "takeWhile (\<lambda>c. c \<noteq> NEWLINE) (line @ NEWLINE # rest) = line"
    by (subst takeWhile_append2) auto
  from assms have b: "takeWhile (\<lambda>c. c \<noteq> NEWLINE) line = line"
    by (auto simp: takeWhile_eq_all_conv)
  show "get_block_name (line @ NEWLINE # rest) = get_block_name line"
    by (simp add: get_block_name_def a b)
  show "get_block_name line =
      strip (map (\<lambda>c. if c = SLASH then DASH else c) (filter (\<lambda>c. c \<noteq> HASH) line))"
    by (simp add: get_block_name_def b replace_char_def remove_char_def)
qed

lemma match_path_shape: "match_path s = Some g \<Longrightarrow> g \<noteq> [] \<and> hd g = SLASH"
  by (auto simp: match_path_def split: if_splits list.splits)

lemma search_path_shape: "search_path s = Some g \<Longrightarrow> g \<noteq> [] \<and> hd g = SLASH"
  by (induction s) (auto split: option.splits dest: match_path_shape)

lemma get_block_metadata_path:
  "get_block_metadata md = Inr meta \<Longrightarrow> block_path meta \<noteq> []"
  by (auto simp: get_block_metadata_def Let_def split: option.splits dest: search_path_shape)

text \<open>
  C4, as the code has it. The block name depends only on the text before the first line
  break; from that text every \<open>#\<close> is removed, every \<open>/\<close> is replaced by \<open>-\<close> (not
  removed), and surrounding white space is trimmed, so the name has no \<open>#\<close>, no \<open>/\<close>
  and no white space at either end. On the empty input the name is the empty string and
  nothing is raised for the heading; metadata extraction of the empty text fails with
  the \<open>AttributeError\<close> of the missing path marker.
\<close>

theorem get_block_name_first_line_dashes:
  "(NEWLINE \<notin> set line \<longrightarrow>
      get_block_name (line @ NEWLINE # rest) = get_block_name line \<and>
      get_block_name line =
        strip (map (\<lambda>c. if c = SLASH then DASH else c) (filter (\<lambda>c. c \<noteq> HASH) line))) \<and>
   HASH \<notin> set (get_block_name md) \<and> SLASH \<notin> set (get_block_name md) \<and>
   (get_block_name md = [] \<or>
      (\<not> isspace (hd (get_block_name md)) \<and> \<not> isspace (last (get_block_name md)))) \<and>
   get_block_name [] = [] \<and> get_block_metadata [] = Inl AttributeError"
proof -
  have "get_block_name md = [] \<or>
      (\<not> isspace (hd (get_block_name md)) \<and> \<not> isspace (last (get_block_name md)))"
    unfolding get_block_name_def by (rule strip_trimmed)
  moreover have "get_block_name [] = []"
    by (simp add: get_block_name_def strip_def rstrip_def replace_char_def remove_char_def)
  moreover have "get_block_metadata [] = Inl AttributeError"
    by (simp add: get_block_metadata_def)
  ultimately show ?thesis
    using get_block_name_chars[of md] get_block_name_first_line[of line rest] by blast
qed

theorem get_block_name_first_line_dashes_witness:
  "NEWLINE \<notin> set (ascii ''# Gain / Bias '') \<and>
   get_block_name (ascii ''# Gain / Bias '' @ NEWLINE # ascii ''second line'') =
     ascii ''Gain - Bias''"
proof -
  have h: "NEWLINE \<notin> set (ascii ''# Gain / Bias '')"
    by (simp add: literal_defs)
  have v: "strip (map (\<lambda>c. if c = SLASH then DASH else c)
      (filter (\<lambda>c. c \<noteq> HASH) (ascii ''# Gain / Bias ''))) = ascii ''Gain - Bias''"
    by (simp add: literal_defs strip_def rstrip_def isspace_def)
  from get_block_name_first_line_dashes
    [of "ascii ''# Gain / Bias ''" "ascii ''second line''" "[]"] h v
  show ?thesis by simp
qed

text \<open>
  C4 as stated fails on the heading "# A/B": the specification's wording gives "AB",
  the code gives "A-B".
\<close>

theorem get_block_name_slash_counterexample:
  "get_block_name (ascii ''# A/B'') = ascii ''A-B'' \<and>
   spec_block_name (ascii ''# A/B'') = ascii ''AB'' \<and>
   get_block_name (ascii ''# A/B'') \<noteq> spec_block_name (ascii ''# A/B'')"
  by (simp add: get_block_name_def spec_block_name_def strip_def rstrip_def isspace_def
      replace_char_def remove_char_def literal_defs)

section \<open>Validator\<close>

text \<open>
  C5. The validator is a function of the blocked-library list and the page text alone,
  and returns no new state. It returns true exactly when the lower-cased text contains
  the path phrase (the source's "put' v biblioteke", path in library) and none of the
  configured blocked-library markers occurs in the lower-cased text.
\<close>

theorem validate_page_iff:
  "validate_page lower self body_text \<longleftrightarrow>
     contains (lower body_text) PATH_PHRASE \<and>
     (\<forall>blocked\<in>set (blocked_libs self). \<not> contains (lower body_text) blocked)"
  by (auto simp: validate_page_def list_ex_iff Let_def)

theorem validate_page_iff_witness:
  "validate_page py_lower (set_blocked_libs init)
     (ascii ''Sum Block '' @ PATH_LABEL @ ascii '': /Operations/Math'') \<and>
   \<not> validate_page py_lower (set_blocked_libs init)
     (ascii ''CAN Receive '' @ PATH_LABEL @ ascii '': /Interfaces/CAN'') \<and>
   \<not> validate_page py_lower (set_blocked_libs init) (ascii ''Release notes'')"
proof -
  have "contains (py_lower (ascii ''Sum Block '' @ PATH_LABEL @ ascii '': /Operations/Math''))
      PATH_PHRASE \<and>
    (\<forall>blocked\<in>set (blocked_libs (set_blocked_libs init)).
      \<not> contains (py_lower (ascii ''Sum Block '' @ PATH_LABEL @ ascii '': /Operations/Math''))
        blocked)"
    by (simp add: literal_defs page_defs py_lower_def lower_cp_def)
  moreover have "\<not> (\<forall>blocked\<in>set (blocked_libs (set_blocked_libs init)).
      \<not> contains (py_lower (ascii ''CAN Receive '' @ PATH_LABEL @ ascii '': /Interfaces/CAN''))
        blocked)"
    by (simp add: literal_defs page_defs py_lower_def lower_cp_def)
  moreover have "\<not> contains (py_lower (ascii ''Release notes'')) PATH_PHRASE"
    by (simp add: literal_defs py_lower_def lower_cp_def)
  ultimately show ?thesis
    using validate_page_iff[of py_lower "set_blocked_libs init"] by blast
qed

section \<open>Persistence\<close>

lemma sum_block_saved:
  assumes "env (ascii ''documentation/.Operations.Math.json'') = Written"
    and "env (ascii ''documentation/.Operations.Math.md'') = Written"
  shows "save_md lower env init fs sum_block_markdown =
      (Inr True,
       fs(ascii ''documentation/.Operations.Math.json'' \<mapsto>
            Json \<lparr>block_name = ascii ''Sum Block'', block_path = ascii ''/Operations/Math ''\<rparr>,
          ascii ''documentation/.Operations.Math.md'' \<mapsto> Markdown sum_block_markdown))"
proof -
  have m: "get_block_metadata sum_block_markdown =
      Inr \<lparr>block_name = ascii ''Sum Block'', block_path = ascii ''/Operations/Math ''\<rparr>"
    by (simp add: get_block_metadata_def get_block_name_def match_path_def strip_def rstrip_def
        isspace_def replace_char_def remove_char_def literal_defs page_defs)
  have s: "rstrip (replace_char SLASH DOT (ascii ''/Operations/Math '')) =
      ascii ''.Operations.Math''"
    by (simp add: rstrip_def isspace_def replace_char_def literal_defs)
  have c: "re_sub_svg sum_block_markdown = sum_block_markdown"
    by (simp add: re_sub_svg.simps match_svg_def literal_defs page_defs)
  have "\<forall>w\<in>set TARGET_WORDS. \<not> contains sum_block_markdown w"
    by (simp add: literal_defs page_defs)
  then have "find (\<lambda>w. contains (lower sum_block_markdown) w \<and> contains sum_block_markdown w)
      TARGET_WORDS = None"
    by (intro find_none) auto
  then have p: "pretiffy_data lower sum_block_markdown = sum_block_markdown"
    by (simp add: pretiffy_data_def c truncate_loop_find)
  have ne: "replace_char SLASH DOT (ascii ''/Operations/Math '') \<noteq> []"
    by (simp add: replace_char_def ascii_def)
  have d: "doc_dir init @ ascii ''.Operations.Math'' @ ascii ''.json'' =
      ascii ''documentation/.Operations.Math.json''"
    "doc_dir init @ ascii ''.Operations.Math'' @ ascii ''.md'' =
      ascii ''documentation/.Operations.Math.md''"
    by (simp_all add: init_def ascii_def)
  show ?thesis
    unfolding save_md_def p Let_def m
    by (simp add: save_block_metadata_def Let_def ne s d write_file_def write_unclosed_def assms)
qed

text \<open>
  C6. For the Markdown "# Sum Block", line break, "...", the path marker (the source's
  literal for "Path in library:<br>"), " /Operations/Math |other text", extraction gives
  the name "Sum Block" and the path "/Operations/Math " with its trailing space. The stem is
  the path with every \<open>/\<close> replaced by \<open>.\<close> and trailing white space removed, so that,
  when both writes succeed, the metadata is written at
  \<open>documentation/.Operations.Math.json\<close> and the content at
  \<open>documentation/.Operations.Math.md\<close>.
\<close>

theorem sum_block_round_trip:
  assumes "env (ascii ''documentation/.Operations.Math.json'') = Written"
    and "env (ascii ''documentation/.Operations.Math.md'') = Written"
  shows "get_block_metadata sum_block_markdown =
      Inr \<lparr>block_name = ascii ''Sum Block'', block_path = ascii ''/Operations/Math ''\<rparr> \<and>
    rstrip (replace_char SLASH DOT (ascii ''/Operations/Math '')) = ascii ''.Operations.Math'' \<and>
    save_md lower env init fs sum_block_markdown =
      (Inr True,
       fs(ascii ''documentation/.Operations.Math.json'' \<mapsto>
            Json \<lparr>block_name = ascii ''Sum Block'', block_path = ascii ''/Operations/Math ''\<rparr>,
          ascii ''documentation/.Operations.Math.md'' \<mapsto> Markdown sum_block_markdown))"
proof -
  have "get_block_metadata sum_block_markdown =
      Inr \<lparr>block_name = ascii ''Sum Block'', block_path = ascii ''/Operations/Math ''\<rparr>"
    by (simp add: get_block_metadata_def get_block_name_def match_path_def strip_def rstrip_def
        isspace_def replace_char_def remove_char_def literal_defs page_defs)
  moreover have "rstrip (replace_char SLASH DOT (ascii ''/Operations/Math '')) =
      ascii ''.Operations.Math''"
    by (simp add: rstrip_def isspace_def replace_char_def literal_defs)
  ultimately show ?thesis
    using sum_block_saved[OF assms, of lower fs] by simp
qed

theorem sum_block_round_trip_witness:
  "save_md py_lower (\<lambda>path. Written) init Map.empty sum_block_markdown =
     (Inr True,
      [ascii ''documentation/.Operations.Math.json'' \<mapsto>
         Json \<lparr>block_name = ascii ''Sum Block'', block_path = ascii ''/Operations/Math ''\<rparr>,
       ascii ''documentation/.Operations.Math.md'' \<mapsto> Markdown sum_block_markdown])"
  using sum_block_round_trip[of "\<lambda>path. Written" py_lower Map.empty] by simp

section \<open>Persistence order\<close>

text \<open>
  C10. Let metadata extraction succeed on the sanitized Markdown of a page, and let
  \<open>stem\<close> be the document directory followed by the path with \<open>/\<close> replaced by \<open>.\<close>
  and trailing white space removed. If the write of \<open>stem.json\<close> succeeds and the write
  of \<open>stem.md\<close> does not, the outcome is \<open>False\<close> and \<open>stem.json\<close> still holds the
  metadata. The metadata file comes first: if opening it fails, the error is raised and
  \<open>stem.md\<close> is as it was.
\<close>

theorem save_md_keeps_metadata_file:
  assumes m: "get_block_metadata (pretiffy_data lower markdown_text) = Inr meta"
    and stem: "stem = doc_dir self @ rstrip (replace_char SLASH DOT (block_path meta))"
  shows "(env (stem @ ascii ''.json'') = Written \<and> env (stem @ ascii ''.md'') \<noteq> Written \<longrightarrow>
      fst (save_md lower env self fs markdown_text) = Inr False \<and>
      snd (save_md lower env self fs markdown_text) (stem @ ascii ''.json'') = Some (Json meta)) \<and>
    (env (stem @ ascii ''.json'') = OpenFails \<longrightarrow>
      fst (save_md lower env self fs markdown_text) = Inl OSError \<and>
      snd (save_md lower env self fs markdown_text) (stem @ ascii ''.md'') =
        fs (stem @ ascii ''.md''))"
proof -
  from m have "block_path meta \<noteq> []" by (rule get_block_metadata_path)
  then have ne: "replace_char SLASH DOT (block_path meta) \<noteq> []"
    by (simp add: replace_char_def)
  have d: "ascii ''.json'' \<noteq> ascii ''.md''" "ascii ''.md'' \<noteq> ascii ''.json''"
    by (simp_all add: ascii_def)
  have sbm: "save_block_metadata env self fs meta =
      write_unclosed env fs (stem @ ascii ''.json'') (Json meta)"
    by (simp add: save_block_metadata_def Let_def ne stem)
  have sm: "save_md lower env self fs markdown_text =
      (case write_unclosed env fs (stem @ ascii ''.json'') (Json meta) of
         (Inl e, fs1) \<Rightarrow> (Inl e, fs1)
       | (Inr u, fs1) \<Rightarrow>
           (case write_file env fs1 (stem @ ascii ''.md'')
                  (Markdown (pretiffy_data lower markdown_text)) of
              (Inl e, fs2) \<Rightarrow> (Inr False, fs2)
            | (Inr v, fs2) \<Rightarrow> (Inr True, fs2)))"
    by (simp add: save_md_def Let_def m sbm stem split: prod.splits sum.splits)
  show ?thesis
    by (cases "env (stem @ ascii ''.json'')"; cases "env (stem @ ascii ''.md'')")
      (simp_all add: sm write_file_def write_unclosed_def d)
qed

theorem save_md_keeps_metadata_file_witness:
  "save_md py_lower
     (\<lambda>path. if path = ascii ''documentation/.Operations.Math.json'' then Written else WriteFails)
     init Map.empty sum_block_markdown =
   (Inr False,
    [ascii ''documentation/.Operations.Math.json'' \<mapsto>
       Json \<lparr>block_name = ascii ''Sum Block'', block_path = ascii ''/Operations/Math ''\<rparr>,
     ascii ''documentation/.Operations.Math.md'' \<mapsto> Partial])"
proof -
  let ?env = "\<lambda>path. if path = ascii ''documentation/.Operations.Math.json'' then Written
    else WriteFails"
  let ?meta = "\<lparr>block_name = ascii ''Sum Block'', block_path = ascii ''/Operations/Math ''\<rparr>"
  let ?r = "save_md py_lower ?env init Map.empty sum_block_markdown"
  have pd: "pretiffy_data py_lower sum_block_markdown = sum_block_markdown"
    by (simp add: pretiffy_data_def re_sub_svg.simps match_svg_def literal_defs page_defs
        py_lower_def lower_cp_def)
  have m: "get_block_metadata (pretiffy_data py_lower sum_block_markdown) = Inr ?meta"
    unfolding pd
    by (simp add: get_block_metadata_def get_block_name_def match_path_def strip_def rstrip_def
        isspace_def replace_char_def remove_char_def literal_defs page_defs)
  have stem: "ascii ''documentation/.Operations.Math'' =
      doc_dir init @ rstrip (replace_char SLASH DOT (block_path ?meta))"
    by (simp add: init_def rstrip_def isspace_def replace_char_def literal_defs)
  have j: "ascii ''documentation/.Operations.Math'' @ ascii ''.json'' =
      ascii ''documentation/.Operations.Math.json''"
    and k: "ascii ''documentation/.Operations.Math'' @ ascii ''.md'' =
      ascii ''documentation/.Operations.Math.md''"
    by (simp_all add: ascii_def)
  have e: "?env (ascii ''documentation/.Operations.Math.json'') = Written \<and>
      ?env (ascii ''documentation/.Operations.Math.md'') \<noteq> Written"
    by (simp add: ascii_def)
  from save_md_keeps_metadata_file[OF m stem, of ?env Map.empty] e
  have "fst ?r = Inr False"
    unfolding j k by blast
  moreover have "snd ?r =
      [ascii ''documentation/.Operations.Math.json'' \<mapsto> Json ?meta,
       ascii ''documentation/.Operations.Math.md'' \<mapsto> Partial]"
    unfolding save_md_def Let_def m save_block_metadata_def write_file_def write_unclosed_def
    by (simp add: init_def rstrip_def isspace_def replace_char_def literal_defs)
  ultimately show ?thesis by (simp add: prod_eq_iff)
qed

section \<open>Orchestrator\<close>

lemma parse_links_keeps:
  "base_url (snd (parse_links self index)) = base_url self \<and>
   blocked_libs (snd (parse_links self index)) = blocked_libs self \<and>
   doc_dir (snd (parse_links self index)) = doc_dir self"
  by (simp add: parse_links_def split: option.splits)

lemma validate_page_raw_links:
  "validate_page lower (self\<lparr>raw_links := ls\<rparr>) body = validate_page lower self body"
  by (simp add: validate_page_def)

lemma save_md_raw_links:
  "save_md lower env (self\<lparr>raw_links := ls\<rparr>) fs md = save_md lower env self fs md"
  by (simp add: save_md_def save_block_metadata_def Let_def split: sum.splits prod.splits)

lemma catch_and_convert_raw_links:
  "catch_and_convert lower env (self\<lparr>raw_links := ls\<rparr>) fs response =
     catch_and_convert lower env self fs response"
  by (simp add: catch_and_convert_def validate_page_raw_links save_md_raw_links
      split: option.splits)

lemma catch_and_convert_no_marker:
  assumes "page_status response = 200" and "page_article response = Some a"
    and "validate_page lower self (article_text a)"
    and "search_path (pretiffy_data lower (article_markdown a)) = None"
  shows "catch_and_convert lower env self fs response = (Inl AttributeError, fs)"
  using assms
  by (simp add: catch_and_convert_def save_md_def get_block_metadata_def Let_def)

lemma run_tasks_raises:
  "link \<in> set links \<Longrightarrow>
   (\<And>fs. \<exists>e. fst (catch_and_convert lower env self fs (fetch (base_url self @ link))) = Inl e) \<Longrightarrow>
   \<exists>e. fst (run_tasks lower env self fetch fs links) = Inl e"
proof (induction links arbitrary: fs)
  case Nil
  then show ?case by simp
next
  case (Cons l links)
  obtain r fs1 where c: "catch_and_convert lower env self fs (fetch (base_url self @ l)) = (r, fs1)"
    by (cases "catch_and_convert lower env self fs (fetch (base_url self @ l))") auto
  show ?case
  proof (cases r)
    case (Inl e)
    with c show ?thesis by simp
  next
    case (Inr b)
    with c Cons.prems(2)[of fs] have "link \<noteq> l" by auto
    with Cons.prems(1) have "link \<in> set links" by simp
    from Cons.IH[OF this Cons.prems(2), of fs1] obtain e where
      "fst (run_tasks lower env self fetch fs1 links) = Inl e" by blast
    with c Inr show ?thesis
      by (cases "run_tasks lower env self fetch fs1 links") auto
  qed
qed

text \<open>
  The order of arrival plays no part in how the run ends. The outcome of a page task
  does not depend on the files present; so the run ends with an exception exactly when
  some task raises, and otherwise the results are the outcomes of the tasks, whose
  counts are the same for every order of the same links.
\<close>

lemma save_md_outcome:
  "fst (save_md lower env self fs md) = fst (save_md lower env self fs' md)"
proof (cases "get_block_metadata (pretiffy_data lower md)")
  case (Inl e)
  then show ?thesis by (simp add: save_md_def)
next
  case (Inr meta)
  let ?stem = "doc_dir self @ rstrip (replace_char SLASH DOT (block_path meta))"
  show ?thesis
  proof (cases "replace_char SLASH DOT (block_path meta) = []")
    case True
    with Inr show ?thesis by (simp add: save_md_def save_block_metadata_def)
  next
    case False
    with Inr show ?thesis
      by (cases "env (?stem @ ascii ''.json'')"; cases "env (?stem @ ascii ''.md'')")
        (simp_all add: save_md_def save_block_metadata_def write_file_def write_unclosed_def)
  qed
qed

lemma fst_catch_and_convert:
  "fst (catch_and_convert lower env self fs response) =
     (if page_status response = 200 then
        (case page_article response of
           None \<Rightarrow> Inl AttributeError
         | Some a \<Rightarrow>
             if validate_page lower self (article_text a)
             then fst (save_md lower env self fs (article_markdown a)) else Inr False)
      else Inr False)"
proof (cases "page_article response")
  case None
  then show ?thesis by (simp add: catch_and_convert_def)
next
  case (Some a)
  obtain r fs1 where "save_md lower env self fs (article_markdown a) = (r, fs1)"
    by (cases "save_md lower env self fs (article_markdown a)") auto
  with Some show ?thesis
    by (cases r) (auto simp: catch_and_convert_def)
qed

lemma catch_and_convert_outcome:
  "fst (catch_and_convert lower env self fs response) =
   fst (catch_and_convert lower env self fs' response)"
  unfolding fst_catch_and_convert
  using save_md_outcome[of lower env self fs _ fs']
  by (simp split: option.splits)

lemma run_tasks_raises_iff:
  "(\<exists>e. fst (run_tasks lower env self fetch fs links) = Inl e) \<longleftrightarrow>
   (\<exists>link\<in>set links. \<exists>e.
      fst (catch_and_convert lower env self Map.empty (fetch (base_url self @ link))) = Inl e)"
proof (induction links arbitrary: fs)
  case Nil
  then show ?case by simp
next
  case (Cons l links)
  obtain r fs1 where c: "catch_and_convert lower env self fs (fetch (base_url self @ l)) = (r, fs1)"
    by (cases "catch_and_convert lower env self fs (fetch (base_url self @ l))") auto
  have o: "fst (catch_and_convert lower env self Map.empty (fetch (base_url self @ l))) = r"
    using catch_and_convert_outcome[of lower env self Map.empty "fetch (base_url self @ l)" fs] c
    by simp
  show ?case
  proof (cases r)
    case (Inl e)
    with c o show ?thesis by auto
  next
    case (Inr b)
    have "(\<exists>e. fst (run_tasks lower env self fetch fs (l # links)) = Inl e) \<longleftrightarrow>
        (\<exists>e. fst (run_tasks lower env self fetch fs1 links) = Inl e)"
      using c Inr by (cases "run_tasks lower env self fetch fs1 links") (auto split: sum.splits)
    with Cons.IH[of fs1] o Inr show ?thesis by auto
  qed
qed

lemma run_tasks_results:
  "fst (run_tasks lower env self fetch fs links) = Inr rs \<Longrightarrow>
   rs = map (\<lambda>link.
     fst (catch_and_convert lower env self Map.empty (fetch (base_url self @ link))) = Inr True)
     links"
proof (induction links arbitrary: fs rs)
  case Nil
  then show ?case by simp
next
  case (Cons l links)
  obtain r fs1 where c: "catch_and_convert lower env self fs (fetch (base_url self @ l)) = (r, fs1)"
    by (cases "catch_and_convert lower env self fs (fetch (base_url self @ l))") auto
  have o: "fst (catch_and_convert lower env self Map.empty (fetch (base_url self @ l))) = r"
    using catch_and_convert_outcome[of lower env self Map.empty "fetch (base_url self @ l)" fs] c
    by simp
  obtain q fs2 where t: "run_tasks lower env self fetch fs1 links = (q, fs2)"
    by (cases "run_tasks lower env self fetch fs1 links") auto
  from Cons.prems c t obtain b bs where r: "r = Inr b" and q: "q = Inr bs" and rs: "rs = b # bs"
    by (auto split: sum.splits)
  from t q have "fst (run_tasks lower env self fetch fs1 links) = Inr bs" by simp
  from Cons.IH[OF this] rs o r show ?case by auto
qed

lemma run_tasks_counts_any_order:
  assumes p: "mset links' = mset links"
    and r: "fst (run_tasks lower env self fetch fs links) = Inr rs"
  shows "\<exists>rs'. fst (run_tasks lower env self fetch fs' links') = Inr rs' \<and>
    length (filter (\<lambda>b. b) rs') = length (filter (\<lambda>b. b) rs) \<and> length rs' = length rs"
proof -
  let ?f = "\<lambda>link.
     fst (catch_and_convert lower env self Map.empty (fetch (base_url self @ link))) = Inr True"
  from p have s: "set links' = set links" by (rule mset_eq_setD)
  from r have "\<not> (\<exists>e. fst (run_tasks lower env self fetch fs links) = Inl e)" by simp
  then have "\<not> (\<exists>e. fst (run_tasks lower env self fetch fs' links') = Inl e)"
    unfolding run_tasks_raises_iff s .
  then obtain rs' where r': "fst (run_tasks lower env self fetch fs' links') = Inr rs'"
    by (cases "fst (run_tasks lower env self fetch fs' links')") auto
  from run_tasks_results[OF r] have a: "rs = map ?f links" .
  from run_tasks_results[OF r'] have b: "rs' = map ?f links'" .
  have e: "mset rs' = mset rs"
    unfolding a b using p by simp
  then have "size (mset rs') = size (mset rs)" by simp
  then have l: "length rs' = length rs" by simp
  from e have "mset (filter (\<lambda>b. b) rs') = mset (filter (\<lambda>b. b) rs)" by simp
  then have "size (mset (filter (\<lambda>b. b) rs')) = size (mset (filter (\<lambda>b. b) rs))"
    by (rule arg_cong)
  then have "length (filter (\<lambda>b. b) rs') = length (filter (\<lambda>b. b) rs)"
    by (simp only: size_mset)
  with l have "length (filter (\<lambda>b. b) rs') = length (filter (\<lambda>b. b) rs) \<and>
      length rs' = length rs" by simp
  with r' show ?thesis by blast
qed

text \<open>
  C2, on the code. A page with status 200 that passes the validator and whose sanitized
  Markdown has no path marker makes \<open>catch_and_convert\<close> raise \<open>AttributeError\<close>: the
  outcome is not the boolean \<open>False\<close>. When such a page is among the links of the run,
  \<open>main\<close> ends with an exception and prints no counts.
\<close>

theorem missing_path_marker_ends_run:
  assumes "page_status (fetch (base_url self @ link)) = 200"
    and "page_article (fetch (base_url self @ link)) = Some a"
    and "validate_page lower self (article_text a)"
    and "search_path (pretiffy_data lower (article_markdown a)) = None"
    and "link \<in> set (raw_links (snd (parse_links self index)))"
  shows "catch_and_convert lower env self fs (fetch (base_url self @ link)) =
      (Inl AttributeError, fs) \<and>
    (\<exists>e. fst (main lower env self index fetch fs) = Inl e)"
proof -
  let ?self = "snd (parse_links self index)"
  have k: "base_url ?self = base_url self" "blocked_libs ?self = blocked_libs self"
    by (simp_all add: parse_links_keeps)
  have v: "validate_page lower ?self (article_text a)"
    using assms(3) unfolding validate_page_def k(2) .
  have "\<exists>e. fst (run_tasks lower env ?self fetch fs (raw_links ?self)) = Inl e"
  proof (rule run_tasks_raises[where link = link])
    show "link \<in> set (raw_links ?self)" by (rule assms(5))
  next
    fix fs'
    show "\<exists>e. fst (catch_and_convert lower env ?self fs' (fetch (base_url ?self @ link))) = Inl e"
      using catch_and_convert_no_marker[of "fetch (base_url self @ link)" a lower ?self env fs']
        assms(1,2,4) v k(1) by simp
  qed
  then obtain e where
    "fst (run_tasks lower env ?self fetch fs (raw_links ?self)) = Inl e" by blast
  then have "fst (main lower env self index fetch fs) = Inl e"
    by (cases "run_tasks lower env ?self fetch fs (raw_links ?self)")
      (auto simp: main_def Let_def)
  with catch_and_convert_no_marker[OF assms(1-4)] show ?thesis by blast
qed

theorem missing_path_marker_ends_run_witness:
  "catch_and_convert py_lower (\<lambda>path. Written) init Map.empty bare_page =
     (Inl AttributeError, Map.empty) \<and>
   entry_point py_lower (\<lambda>path. Written)
     \<lparr>index_status = 200, index_links = Some [ascii ''sum.html'', ascii ''bare.html'']\<rparr>
     example_site Map.empty =
   (Inl AttributeError,
    [ascii ''documentation/.Operations.Math.json'' \<mapsto>
       Json \<lparr>block_name = ascii ''Sum Block'', block_path = ascii ''/Operations/Math ''\<rparr>,
     ascii ''documentation/.Operations.Math.md'' \<mapsto> Markdown sum_block_markdown])"
proof -
  let ?index = "\<lparr>index_status = 200, index_links = Some [ascii ''sum.html'', ascii ''bare.html'']\<rparr>"
  let ?a = "\<lparr>article_text = ascii ''Libraries '' @ PATH_LABEL,
         article_markdown = ascii ''# Libraries'' @ NEWLINE # PATH_LABEL\<rparr>"
  have f: "example_site (base_url init @ ascii ''bare.html'') = bare_page"
    and g: "example_site (base_url init @ ascii ''sum.html'') = sum_page"
    by (simp_all add: example_site_def init_def ascii_def)
  have h1: "page_status (example_site (base_url init @ ascii ''bare.html'')) = 200"
    and h2: "page_article (example_site (base_url init @ ascii ''bare.html'')) = Some ?a"
    unfolding f by (simp_all add: bare_page_def)
  have h3: "validate_page py_lower init (article_text ?a)"
    by (simp add: validate_page_def literal_defs page_defs py_lower_def lower_cp_def)
  have h4: "search_path (pretiffy_data py_lower (article_markdown ?a)) = None"
    by (simp add: pretiffy_data_def re_sub_svg.simps match_svg_def match_path_def
        literal_defs page_defs py_lower_def lower_cp_def)
  have h5: "ascii ''bare.html'' \<in> set (raw_links (snd (parse_links init ?index)))"
    by (simp add: parse_links_def init_def)
  from missing_path_marker_ends_run
    [where fetch = example_site and self = init and link = "ascii ''bare.html''"
      and lower = py_lower and index = ?index and env = "\<lambda>path. Written"
      and fs = Map.empty, OF h1 h2 h3 h4 h5]
  have b: "catch_and_convert py_lower (\<lambda>path. Written) init Map.empty bare_page =
     (Inl AttributeError, Map.empty)"
    unfolding f by blast
  have b': "\<And>fs. catch_and_convert py_lower (\<lambda>path. Written) init fs bare_page =
     (Inl AttributeError, fs)"
    using h3 h4 by (simp add: catch_and_convert_def bare_page_def save_md_def
        get_block_metadata_def Let_def)
  have v: "validate_page py_lower init (ascii ''Sum Block '' @ PATH_LABEL @ ascii '': /Operations/Math'')"
    by (simp add: validate_page_def literal_defs page_defs py_lower_def lower_cp_def)
  have s: "catch_and_convert py_lower (\<lambda>path. Written) init Map.empty sum_page =
     (Inr True,
      [ascii ''documentation/.Operations.Math.json'' \<mapsto>
         Json \<lparr>block_name = ascii ''Sum Block'', block_path = ascii ''/Operations/Math ''\<rparr>,
       ascii ''documentation/.Operations.Math.md'' \<mapsto> Markdown sum_block_markdown])"
    using sum_block_saved[of "\<lambda>path. Written" py_lower Map.empty] v
    by (simp add: catch_and_convert_def sum_page_def)
  have p: "snd (parse_links init ?index) =
      init\<lparr>raw_links := [ascii ''sum.html'', ascii ''bare.html'']\<rparr>"
    by (simp add: parse_links_def init_def)
  have u: "base_url (init\<lparr>raw_links := [ascii ''sum.html'', ascii ''bare.html'']\<rparr>) =
      base_url init"
    by simp
  have "entry_point py_lower (\<lambda>path. Written) ?index example_site Map.empty =
   (Inl AttributeError,
    [ascii ''documentation/.Operations.Math.json'' \<mapsto>
       Json \<lparr>block_name = ascii ''Sum Block'', block_path = ascii ''/Operations/Math ''\<rparr>,
     ascii ''documentation/.Operations.Math.md'' \<mapsto> Markdown sum_block_markdown])"
    unfolding entry_point_def main_def Let_def p
    by (simp add: catch_and_convert_raw_links u f g s b')
  with b show ?thesis by simp
qed

text \<open>
  C3, as the code has it. When the index page answers with a status other than 200,
  \<open>parse_links\<close> returns \<open>False\<close> and collects no link; \<open>main\<close> does not look at that
  result, has no task to launch, writes nothing, and ends normally with the counts
  0 and 0.
\<close>

theorem failed_index_fetch_runs_no_task:
  assumes "index_status index \<noteq> 200"
  shows "parse_links init index = (False, init) \<and>
    run_tasks lower env init fetch fs (raw_links (snd (parse_links init index))) = (Inr [], fs) \<and>
    entry_point lower env index fetch fs = (Inr (0, 0), fs)"
proof -
  from assms have p: "parse_links init index = (False, init)"
    by (simp add: parse_links_def)
  have r: "raw_links init = []" by (simp add: init_def)
  show ?thesis
    by (simp add: p r entry_point_def main_def)
qed

theorem failed_index_fetch_runs_no_task_witness:
  "parse_links init \<lparr>index_status = 503, index_links = None\<rparr> = (False, init) \<and>
   entry_point py_lower (\<lambda>path. Written) \<lparr>index_status = 503, index_links = None\<rparr>
     example_site Map.empty = (Inr (0, 0), Map.empty)"
  using failed_index_fetch_runs_no_task
    [of "\<lparr>index_status = 503, index_links = None\<rparr>" py_lower "\<lambda>path. Written" example_site
      Map.empty]
  by simp

text \<open>
  C3 as stated fails: with status 404 for the index page the run does not fail; it ends
  normally and reports 0 of 0.
\<close>

theorem failed_index_fetch_counterexample:
  "entry_point py_lower (\<lambda>path. Written) \<lparr>index_status = 404, index_links = None\<rparr>
     example_site Map.empty = (Inr (0, 0), Map.empty)"
  by (simp add: entry_point_def main_def parse_links_def init_def)

text \<open>
  C7, on the code. The entry point never calls \<open>set_blocked_libs\<close>, so the blocked list
  of its run is the empty list of \<open>__init__\<close>, and the validator of that run accepts
  every page that has the path phrase. A page of the interfaces library, which the
  validator rejects once \<open>set_blocked_libs\<close> has been called, is persisted by the run of
  the entry point.
\<close>

theorem entry_point_blocks_no_library:
  "blocked_libs (snd (parse_links init index)) = [] \<and>
   (validate_page lower (snd (parse_links init index)) body_text \<longleftrightarrow>
      contains (lower body_text) PATH_PHRASE) \<and>
   \<not> validate_page py_lower (set_blocked_libs init)
       (ascii ''CAN Receive '' @ PATH_LABEL @ ascii '': /Interfaces/CAN'') \<and>
   entry_point py_lower (\<lambda>path. Written)
     \<lparr>index_status = 200, index_links = Some [ascii ''can.html'']\<rparr> example_site Map.empty =
   (Inr (1, 1),
    [ascii ''documentation/.Interfaces.CAN.json'' \<mapsto>
       Json \<lparr>block_name = ascii ''CAN Receive'', block_path = ascii ''/Interfaces/CAN ''\<rparr>,
     ascii ''documentation/.Interfaces.CAN.md'' \<mapsto>
       Markdown (ascii ''# CAN Receive'' @ NEWLINE # PATH_MARKER @ ascii '' /Interfaces/CAN |'')])"
proof -
  let ?md = "ascii ''# CAN Receive'' @ NEWLINE # PATH_MARKER @ ascii '' /Interfaces/CAN |''"
  let ?meta = "\<lparr>block_name = ascii ''CAN Receive'', block_path = ascii ''/Interfaces/CAN ''\<rparr>"
  have b: "blocked_libs (snd (parse_links init index)) = []"
    by (simp add: parse_links_keeps init_def)
  then have v: "validate_page lower (snd (parse_links init index)) body_text \<longleftrightarrow>
      contains (lower body_text) PATH_PHRASE"
    by (simp add: validate_page_def Let_def)
  have n: "\<not> validate_page py_lower (set_blocked_libs init)
       (ascii ''CAN Receive '' @ PATH_LABEL @ ascii '': /Interfaces/CAN'')"
    by (simp add: validate_page_def literal_defs page_defs py_lower_def lower_cp_def)
  have a: "validate_page py_lower init
       (ascii ''CAN Receive '' @ PATH_LABEL @ ascii '': /Interfaces/CAN'')"
    by (simp add: validate_page_def literal_defs page_defs py_lower_def lower_cp_def)
  have pd: "pretiffy_data py_lower ?md = ?md"
    by (simp add: pretiffy_data_def re_sub_svg.simps match_svg_def literal_defs
        py_lower_def lower_cp_def)
  have m: "get_block_metadata ?md = Inr ?meta"
    by (simp add: get_block_metadata_def get_block_name_def match_path_def strip_def rstrip_def
        isspace_def replace_char_def remove_char_def literal_defs)
  have s: "save_md py_lower (\<lambda>path. Written) init Map.empty ?md =
      (Inr True,
       [ascii ''documentation/.Interfaces.CAN.json'' \<mapsto> Json ?meta,
        ascii ''documentation/.Interfaces.CAN.md'' \<mapsto> Markdown ?md])"
    unfolding save_md_def Let_def pd m
    by (simp add: save_block_metadata_def write_file_def write_unclosed_def init_def rstrip_def
        isspace_def
        replace_char_def literal_defs)
  have c: "catch_and_convert py_lower (\<lambda>path. Written) init Map.empty can_page =
      (Inr True,
       [ascii ''documentation/.Interfaces.CAN.json'' \<mapsto> Json ?meta,
        ascii ''documentation/.Interfaces.CAN.md'' \<mapsto> Markdown ?md])"
    using a s by (simp add: catch_and_convert_def can_page_def)
  have f: "example_site (base_url init @ ascii ''can.html'') = can_page"
    by (simp add: example_site_def init_def ascii_def)
  have p: "snd (parse_links init \<lparr>index_status = 200, index_links = Some [ascii ''can.html'']\<rparr>) =
      init\<lparr>raw_links := [ascii ''can.html'']\<rparr>"
    by (simp add: parse_links_def init_def)
  have u: "base_url (init\<lparr>raw_links := [ascii ''can.html'']\<rparr>) = base_url init"
    by simp
  have "entry_point py_lower (\<lambda>path. Written)
     \<lparr>index_status = 200, index_links = Some [ascii ''can.html'']\<rparr> example_site Map.empty =
   (Inr (1, 1),
    [ascii ''documentation/.Interfaces.CAN.json'' \<mapsto> Json ?meta,
     ascii ''documentation/.Interfaces.CAN.md'' \<mapsto> Markdown ?md])"
    unfolding entry_point_def main_def Let_def p
    by (simp add: catch_and_convert_raw_links u f c)
  with b v n show ?thesis by blast
qed

end
